theory Spec2Isabelle
  imports Main "HOL-Library.Word" "HOL-Library.Sublist"
begin

unbundle bit_operations_syntax

section \<open>The controller state history of \<open>src/input/controller.cpp\<close>\<close>

text \<open>
  The development embeds \<open>Input::GameController\<close>: a ring of the most recent
  \<open>MAX_STATES\<close> controller states with one \<open>obtained\<close> flag per slot, the two guest
  reads \<open>ReadState\<close> and \<open>ReadStates\<close>, the two event handlers \<open>CheckButton\<close> and
  \<open>Axis\<close>, and the two calls that reach the SDL device.

  Every public method that touches the ring holds \<open>m_mutex\<close> for its whole body, so a
  method is one atomic step on the object: a function from the object to the updated
  object and the values stored through its out parameters.

  The header \<open>input/controller.h\<close> is not part of the sources at hand. What the code
  takes from it is either a parameter of the model (\<open>MAX_STATES\<close>, the button masks of
  \<open>pad.h\<close>) or is marked as modelled from the specification.
\<close>

subsection \<open>Data\<close>

type_synonym u8 = "8 word"
type_synonym u16 = "16 word"
type_synonym u32 = "32 word"
type_synonym u64 = "64 word"

text \<open>
  Modelled from the spec: the enumeration \<open>Input::Axis\<close> is declared in the missing
  header; the code names \<open>TriggerLeft\<close> and \<open>TriggerRight\<close>, the specification lists
  the four stick axes before them.
\<close>

datatype Axis = LeftStickX | LeftStickY | RightStickX | RightStickY | TriggerLeft | TriggerRight

text \<open>
  Modelled from the spec: \<open>struct State\<close> is declared in the missing header. The code
  uses the fields \<open>time\<close> (assigned the unsigned 64-bit process time), \<open>buttonsState\<close>
  (combined with \<open>u32\<close> masks) and \<open>axes\<close> (an array of C \<open>int\<close> indexed by the
  enumeration cast to \<open>int\<close>). The array is a function on the enumeration: every
  enumerator is a valid index. An axis value is stored and compared with 31 and 16 only,
  never computed with, so it is an \<open>int\<close>.
\<close>

record State =
  buttonsState :: u32
  time :: u64
  axes :: "Axis \<Rightarrow> int"

text \<open>
  Modelled from the spec: the value of a default-constructed \<open>State()\<close> is fixed by the
  missing header; the specification gives "Defaults: all zero".
\<close>

definition State_default :: State where
  "State_default = \<lparr>buttonsState = 0, time = 0, axes = (\<lambda>_. 0)\<rparr>"

text \<open>
  Modelled from the spec: the element type of \<open>m_private\<close> is declared in the missing
  header. The code uses its field \<open>obtained\<close> only; the specification has one
  "obtained" boolean per slot.
\<close>

record StateInternal =
  obtained :: bool

text \<open>The device pointer \<open>SDL_Gamepad*\<close> is an address.\<close>

type_synonym SDL_Gamepad = nat

text \<open>
  Modelled from the spec: the class is declared in the missing header; these are the
  members the code reads and writes. \<open>m_states\<close> and \<open>m_private\<close> are the two arrays
  of \<open>MAX_STATES\<close> entries; \<open>m_first_state\<close> and \<open>m_states_num\<close> are the head index
  and the count of the specification. The loop of \<open>ReadStates\<close> adds a \<open>uint32_t\<close> to
  them, so the code's index arithmetic is unsigned and 32 bits wide. They are kept as
  \<open>nat\<close>: under the invariant \<open>ctrl_inv\<close> below every sum the code forms stays below
  \<open>2 ^ 32\<close> (lemma \<open>ring_sums_fit\<close>), so that the arithmetic never wraps.
  \<open>m_connected_count\<close> is copied to an \<open>int\<close>. \<open>m_sdl_gamepad\<close> is the device
  pointer, \<open>None\<close> for \<open>nullptr\<close>.
\<close>

record GameController =
  m_connected :: bool
  m_last_state :: State
  m_connected_count :: int
  m_states_num :: nat
  m_first_state :: nat
  m_states :: "State list"
  m_private :: "StateInternal list"
  m_sdl_gamepad :: "SDL_Gamepad option"

text \<open>
  The constructor body assigns two members; all others keep what their member
  initialisers (in the missing header) gave them, here the fields of \<open>c0\<close>.
\<close>

definition GameController_ctor :: "GameController \<Rightarrow> GameController" where
  "GameController_ctor c0 = c0\<lparr>m_states_num := 0, m_last_state := State_default\<rparr>"

subsection \<open>The ring\<close>

definition GetLastState :: "nat \<Rightarrow> GameController \<Rightarrow> State" where
  "GetLastState MAX_STATES c =
     (if m_states_num c = 0 then m_last_state c
      else let last = (m_first_state c + m_states_num c - 1) mod MAX_STATES
           in m_states c ! last)"

definition AddState :: "nat \<Rightarrow> GameController \<Rightarrow> State \<Rightarrow> GameController" where
  "AddState MAX_STATES c state =
     (let c1 = (if m_states_num c \<ge> MAX_STATES
                then c\<lparr>m_states_num := MAX_STATES - 1,
                       m_first_state := (m_first_state c + 1) mod MAX_STATES\<rparr>
                else c);
          index = (m_first_state c1 + m_states_num c1) mod MAX_STATES
      in c1\<lparr>m_states := (m_states c1)[index := state],
             m_last_state := state,
             m_private := (m_private c1)[index := (m_private c1 ! index)\<lparr>obtained := False\<rparr>],
             m_states_num := m_states_num c1 + 1\<rparr>)"

text \<open>
  \<open>ReadState\<close> returns the object and the values stored through \<open>state\<close>,
  \<open>isConnected\<close> and \<open>connectedCount\<close>.
\<close>

definition ReadState :: "nat \<Rightarrow> GameController \<Rightarrow> GameController \<times> State \<times> bool \<times> int" where
  "ReadState MAX_STATES c = (c, GetLastState MAX_STATES c, m_connected c, m_connected_count c)"

text \<open>
  The loop of \<open>ReadStates\<close>, with the loop counter \<open>i\<close>, the running \<open>ret_num\<close> and
  the stores made so far through the pointer \<open>states\<close>, oldest first: the pair
  \<open>(k, s)\<close> is the assignment \<open>states[k] = s\<close>. \<open>states_num\<close> and \<open>ret_num\<close> are C
  \<open>int\<close>s and are compared as such.
\<close>

function ReadStates_loop ::
  "nat \<Rightarrow> GameController \<Rightarrow> int \<Rightarrow> nat \<Rightarrow> int \<Rightarrow> (int \<times> State) list
     \<Rightarrow> GameController \<times> int \<times> (int \<times> State) list" where
  "ReadStates_loop MAX_STATES c states_num i ret_num stores =
     (if i < m_states_num c then
        if ret_num \<ge> states_num then (c, ret_num, stores)
        else
          let index = (m_first_state c + i) mod MAX_STATES in
          if \<not> obtained (m_private c ! index) then
            ReadStates_loop MAX_STATES
              (c\<lparr>m_private := (m_private c)[index := (m_private c ! index)\<lparr>obtained := True\<rparr>]\<rparr>)
              states_num (i + 1) (ret_num + 1) (stores @ [(ret_num, m_states c ! index)])
          else ReadStates_loop MAX_STATES c states_num (i + 1) ret_num stores
      else (c, ret_num, stores))"
  by pat_completeness auto
termination
  by (relation "measure (\<lambda>(N, c, states_num, i, ret_num, stores). m_states_num c - i)") auto

declare ReadStates_loop.simps [simp del]

text \<open>
  \<open>ReadStates\<close> returns the object, \<open>ret_num\<close>, the stores through \<open>states\<close>, and the
  values stored through \<open>isConnected\<close> and \<open>connectedCount\<close>.
\<close>

definition ReadStates ::
  "nat \<Rightarrow> GameController \<Rightarrow> int \<Rightarrow> GameController \<times> int \<times> (int \<times> State) list \<times> bool \<times> int" where
  "ReadStates MAX_STATES c states_num =
     (if m_connected c then
        if m_states_num c = 0 then
          (c, 1, [(0, m_last_state c)], m_connected c, m_connected_count c)
        else
          (case ReadStates_loop MAX_STATES c states_num 0 0 [] of
             (c', ret_num, stores) \<Rightarrow> (c', ret_num, stores, m_connected c, m_connected_count c))
      else (c, 0, [], m_connected c, m_connected_count c))"

subsection \<open>Event handlers\<close>

text \<open>
  \<open>now\<close> is the value \<open>sceKernelGetProcessTime()\<close> returns in the call. The
  argument \<open>id\<close> (here \<open>pad_id\<close>) is not used by either handler.
\<close>

definition CheckButton :: "nat \<Rightarrow> u64 \<Rightarrow> GameController \<Rightarrow> int \<Rightarrow> u32 \<Rightarrow> bool \<Rightarrow> GameController" where
  "CheckButton MAX_STATES now c pad_id button isPressed =
     (let state = GetLastState MAX_STATES c;
          state = state\<lparr>time := now\<rparr>;
          state = (if isPressed then state\<lparr>buttonsState := buttonsState state OR button\<rparr>
                   else state\<lparr>buttonsState := buttonsState state AND NOT button\<rparr>)
      in AddState MAX_STATES c state)"

text \<open>
  \<open>ORBIS_PAD_BUTTON_L2\<close> and \<open>ORBIS_PAD_BUTTON_R2\<close> are constants of \<open>pad.h\<close>, which
  is not among the sources; they are parameters.
\<close>

definition Axis ::
  "nat \<Rightarrow> u32 \<Rightarrow> u32 \<Rightarrow> u64 \<Rightarrow> GameController \<Rightarrow> int \<Rightarrow> Axis \<Rightarrow> int \<Rightarrow> GameController" where
  "Axis MAX_STATES ORBIS_PAD_BUTTON_L2 ORBIS_PAD_BUTTON_R2 now c pad_id axis val =
     (let state = GetLastState MAX_STATES c;
          state = state\<lparr>time := now\<rparr>;
          state = state\<lparr>axes := (axes state)(axis := val)\<rparr>;
          ON_THRESHOLD = 31;
          OFF_THRESHOLD = 16;
          state = (if axis = TriggerLeft then
                     if val > ON_THRESHOLD then
                       state\<lparr>buttonsState := buttonsState state OR ORBIS_PAD_BUTTON_L2\<rparr>
                     else if val < OFF_THRESHOLD then
                       state\<lparr>buttonsState := buttonsState state AND NOT ORBIS_PAD_BUTTON_L2\<rparr>
                     else state
                   else state);
          state = (if axis = TriggerRight then
                     if val > ON_THRESHOLD then
                       state\<lparr>buttonsState := buttonsState state OR ORBIS_PAD_BUTTON_R2\<rparr>
                     else if val < OFF_THRESHOLD then
                       state\<lparr>buttonsState := buttonsState state AND NOT ORBIS_PAD_BUTTON_R2\<rparr>
                     else state
                   else state)
      in AddState MAX_STATES c state)"

subsection \<open>Calls into the device\<close>

text \<open>
  The SDL functions are parameters acting on a device world \<open>'w\<close>. The result of
  \<open>SDL_SetGamepadLED\<close> is discarded by the code. The two rumble arguments are the
  floating-point expressions \<open>(x / 255.0f) * 0xFFFF\<close> converted to 16 bits; that
  conversion is the parameter \<open>scale\<close>. The duration \<open>-1\<close> is passed as it is.
\<close>

definition SetLightBarRGB ::
  "(SDL_Gamepad \<Rightarrow> u8 \<Rightarrow> u8 \<Rightarrow> u8 \<Rightarrow> 'w \<Rightarrow> 'w) \<Rightarrow> GameController \<Rightarrow> 'w \<Rightarrow> u8 \<Rightarrow> u8 \<Rightarrow> u8
     \<Rightarrow> GameController \<times> 'w" where
  "SetLightBarRGB SDL_SetGamepadLED c w r g b =
     (case m_sdl_gamepad c of
        Some pad \<Rightarrow> (c, SDL_SetGamepadLED pad r g b w)
      | None \<Rightarrow> (c, w))"

definition SetVibration ::
  "(SDL_Gamepad \<Rightarrow> u16 \<Rightarrow> u16 \<Rightarrow> u32 \<Rightarrow> 'w \<Rightarrow> int \<times> 'w) \<Rightarrow> (u8 \<Rightarrow> u16) \<Rightarrow> GameController \<Rightarrow> 'w
     \<Rightarrow> u8 \<Rightarrow> u8 \<Rightarrow> bool \<times> GameController \<times> 'w" where
  "SetVibration SDL_RumbleGamepad scale c w smallMotor largeMotor =
     (case m_sdl_gamepad c of
        Some pad \<Rightarrow>
          (case SDL_RumbleGamepad pad (scale smallMotor) (scale largeMotor) (- 1) w of
             (rc, w') \<Rightarrow> (rc = 0, c, w'))
      | None \<Rightarrow> (True, c, w))"

subsection \<open>Sequences of calls\<close>

text \<open>
  A call of one of the two handlers, with its arguments, and the clock value it reads.
\<close>

datatype pad_event = ButtonEvent int u32 bool | AxisEvent int Axis int

fun handle_event :: "nat \<Rightarrow> u32 \<Rightarrow> u32 \<Rightarrow> GameController \<Rightarrow> u64 \<times> pad_event \<Rightarrow> GameController" where
  "handle_event N l2 r2 c (now, ButtonEvent pad_id button isPressed) =
     CheckButton N now c pad_id button isPressed"
| "handle_event N l2 r2 c (now, AxisEvent pad_id axis val) = Axis N l2 r2 now c pad_id axis val"

definition handle_events ::
  "nat \<Rightarrow> u32 \<Rightarrow> u32 \<Rightarrow> GameController \<Rightarrow> (u64 \<times> pad_event) list \<Rightarrow> GameController" where
  "handle_events N l2 r2 c evs = foldl (handle_event N l2 r2) c evs"

text \<open>The object after each call of a sequence of handler calls.\<close>

fun handle_events_trace ::
  "nat \<Rightarrow> u32 \<Rightarrow> u32 \<Rightarrow> GameController \<Rightarrow> (u64 \<times> pad_event) list \<Rightarrow> GameController list" where
  "handle_events_trace N l2 r2 c [] = []"
| "handle_events_trace N l2 r2 c (ev # evs) =
     handle_event N l2 r2 c ev # handle_events_trace N l2 r2 (handle_event N l2 r2 c ev) evs"

text \<open>
  A run of \<open>AddState\<close> and \<open>ReadStates\<close> calls in any order; the result is the final
  object and, for each \<open>ReadStates\<close> call, the states it stored, in the order of the calls.
\<close>

datatype ring_op = Append State | Drain int

fun run_ops :: "nat \<Rightarrow> GameController \<Rightarrow> ring_op list \<Rightarrow> GameController \<times> State list list" where
  "run_ops N c [] = (c, [])"
| "run_ops N c (Append s # ops) = run_ops N (AddState N c s) ops"
| "run_ops N c (Drain states_num # ops) =
     (case ReadStates N c states_num of
        (c', ret_num, stores, isConnected, connectedCount) \<Rightarrow>
          (case run_ops N c' ops of (c'', outs) \<Rightarrow> (c'', map snd stores # outs)))"

fun appended :: "ring_op list \<Rightarrow> State list" where
  "appended [] = []"
| "appended (Append s # ops) = s # appended ops"
| "appended (Drain states_num # ops) = appended ops"

subsection \<open>Invariant and abstraction\<close>

text \<open>
  The representation invariant of the ring for capacity \<open>N\<close>: both arrays have \<open>N\<close>
  entries, the head index is an index, at most \<open>N\<close> states are live. The bound on \<open>N\<close>
  keeps \<open>m_first_state + m_states_num\<close> and \<open>ret_num\<close> inside 32 bits.
\<close>

definition ctrl_inv :: "nat \<Rightarrow> GameController \<Rightarrow> bool" where
  "ctrl_inv N c \<longleftrightarrow>
     0 < N \<and> N < 2 ^ 31 \<and> m_first_state c < N \<and> m_states_num c \<le> N \<and>
     length (m_states c) = N \<and> length (m_private c) = N"

text \<open>
  The live slots, oldest first, the states held in them, and those among them that no
  \<open>ReadStates\<close> has handed out yet.
\<close>

definition live_slots :: "nat \<Rightarrow> GameController \<Rightarrow> nat list" where
  "live_slots N c = map (\<lambda>k. (m_first_state c + k) mod N) [0..<m_states_num c]"

definition live_states :: "nat \<Rightarrow> GameController \<Rightarrow> State list" where
  "live_states N c = map (\<lambda>j. m_states c ! j) (live_slots N c)"

definition unread_slots :: "nat \<Rightarrow> GameController \<Rightarrow> nat list" where
  "unread_slots N c = filter (\<lambda>j. \<not> obtained (m_private c ! j)) (live_slots N c)"

definition unread_states :: "nat \<Rightarrow> GameController \<Rightarrow> State list" where
  "unread_states N c = map (\<lambda>j. m_states c ! j) (unread_slots N c)"

text \<open>The flags after the slots \<open>js\<close> have been handed out, one after the other.\<close>

definition mark_obtained :: "nat list \<Rightarrow> StateInternal list \<Rightarrow> StateInternal list" where
  "mark_obtained js ps = fold (\<lambda>j ps. ps[j := (ps ! j)\<lparr>obtained := True\<rparr>]) js ps"

subsection \<open>Example objects\<close>

text \<open>
  Objects with four slots, used to instantiate the theorems: a state told apart by its
  time stamp, a connected controller whose ring is still empty, and the same controller
  after six appends, when the ring has wrapped and holds the states 3 to 6.
\<close>

definition sample :: "nat \<Rightarrow> State" where
  "sample n = State_default\<lparr>time := of_nat n\<rparr>"

definition pad_idle :: GameController where
  "pad_idle =
     \<lparr>m_connected = True, m_last_state = State_default, m_connected_count = 1,
      m_states_num = 0, m_first_state = 0,
      m_states = [State_default, State_default, State_default, State_default],
      m_private = [\<lparr>obtained = False\<rparr>, \<lparr>obtained = False\<rparr>,
                   \<lparr>obtained = False\<rparr>, \<lparr>obtained = False\<rparr>],
      m_sdl_gamepad = None\<rparr>"

definition pad_wrapped :: GameController where
  "pad_wrapped =
     \<lparr>m_connected = True, m_last_state = sample 6, m_connected_count = 1,
      m_states_num = 4, m_first_state = 2,
      m_states = [sample 5, sample 6, sample 3, sample 4],
      m_private = [\<lparr>obtained = False\<rparr>, \<lparr>obtained = False\<rparr>,
                   \<lparr>obtained = False\<rparr>, \<lparr>obtained = False\<rparr>],
      m_sdl_gamepad = None\<rparr>"

section \<open>Facts about the ring\<close>

subsection \<open>Slot arithmetic\<close>

lemma ring_index_inj:
  fixes a b f N :: nat
  assumes "a < N" "b < N" "(f + a) mod N = (f + b) mod N"
  shows "a = b"
proof -
  have le: "x = y" if "x \<le> y" "y < N" "(f + x) mod N = (f + y) mod N" for x y :: nat
  proof -
    from that have "N dvd (f + y) - (f + x)"
      using mod_eq_dvd_iff_nat [of "f + x" "f + y" N] by simp
    then have "N dvd y - x" by simp
    moreover have "y - x < N" using that by simp
    ultimately have "y - x = 0"
      using nat_dvd_not_less [of "y - x" N] by auto
    with that show ?thesis by simp
  qed
  show ?thesis
  proof (cases "a \<le> b")
    case True
    with assms show ?thesis by (simp add: le)
  next
    case False
    then have "b \<le> a" by simp
    with assms have "b = a" by (simp add: le)
    then show ?thesis by simp
  qed
qed

lemma ring_index_wrap:
  fixes f N :: nat
  assumes "f < N"
  shows "((f + 1) mod N + (N - 1)) mod N = f"
proof -
  have "((f + 1) mod N + (N - 1)) mod N = (f + 1 + (N - 1)) mod N"
    by (simp add: mod_add_left_eq)
  also have "f + 1 + (N - 1) = f + N" using assms by simp
  finally show ?thesis using assms by simp
qed

lemma ring_sums_fit:
  assumes "ctrl_inv N c" and "i \<le> m_states_num c"
  shows "m_first_state c + i < 2 ^ 32" and "m_first_state c + 1 < 2 ^ 32"
    and "(m_first_state c + 1) mod N + (N - 1) < 2 ^ 32"
proof -
  have N: "0 < N" "N < 2 ^ 31" "m_first_state c < N" "m_states_num c \<le> N"
    using assms(1) by (simp_all add: ctrl_inv_def)
  have "(m_first_state c + 1) mod N < N" using N(1) by simp
  then have "(m_first_state c + 1) mod N + (N - 1) < N + N" by linarith
  moreover have "m_first_state c + i < N + N" using N assms(2) by linarith
  moreover have "m_first_state c + 1 < N + N" using N by linarith
  moreover have "N + N < (2::nat) ^ 32" using N(2) by simp
  ultimately show "m_first_state c + i < 2 ^ 32" and "m_first_state c + 1 < 2 ^ 32"
    and "(m_first_state c + 1) mod N + (N - 1) < 2 ^ 32"
    by linarith+
qed

lemma length_live_slots [simp]: "length (live_slots N c) = m_states_num c"
  by (simp add: live_slots_def)

lemma live_slots_bound: "0 < N \<Longrightarrow> j \<in> set (live_slots N c) \<Longrightarrow> j < N"
  by (auto simp: live_slots_def)

lemma distinct_live_slots:
  assumes "m_states_num c \<le> N"
  shows "distinct (live_slots N c)"
proof -
  have "inj_on (\<lambda>k. (m_first_state c + k) mod N) {0..<m_states_num c}"
  proof (rule inj_onI)
    fix x y
    assume "x \<in> {0..<m_states_num c}" "y \<in> {0..<m_states_num c}"
      and "(m_first_state c + x) mod N = (m_first_state c + y) mod N"
    with assms show "x = y"
      using ring_index_inj [of x N y "m_first_state c"] by simp
  qed
  then show ?thesis by (simp add: live_slots_def distinct_map)
qed

lemma live_slots_nth:
  "i < m_states_num c \<Longrightarrow> live_slots N c ! i = (m_first_state c + i) mod N"
  by (simp add: live_slots_def)

lemma next_slot_not_live:
  assumes that: "m_states_num c < N"
  shows "(m_first_state c + m_states_num c) mod N \<notin> set (live_slots N c)"
proof
  assume "(m_first_state c + m_states_num c) mod N \<in> set (live_slots N c)"
  then obtain k where k: "k < m_states_num c"
      "(m_first_state c + m_states_num c) mod N = (m_first_state c + k) mod N"
    by (auto simp: live_slots_def)
  with that have "m_states_num c = k"
    using ring_index_inj [of "m_states_num c" N k "m_first_state c"] by simp
  with k show False by simp
qed

subsection \<open>The effect of \<open>AddState\<close>\<close>

lemma AddState_not_full:
  assumes "m_states_num c < N"
  shows "AddState N c s =
     c\<lparr>m_states := (m_states c)[(m_first_state c + m_states_num c) mod N := s],
       m_last_state := s,
       m_private := (m_private c)[(m_first_state c + m_states_num c) mod N :=
                        (m_private c ! ((m_first_state c + m_states_num c) mod N))\<lparr>obtained := False\<rparr>],
       m_states_num := m_states_num c + 1\<rparr>"
  using assms by (simp add: AddState_def Let_def)

lemma AddState_full:
  assumes "m_states_num c = N" "m_first_state c < N" "0 < N"
  shows "AddState N c s =
     c\<lparr>m_first_state := (m_first_state c + 1) mod N,
       m_states := (m_states c)[m_first_state c := s],
       m_last_state := s,
       m_private := (m_private c)[m_first_state c :=
                        (m_private c ! m_first_state c)\<lparr>obtained := False\<rparr>],
       m_states_num := N\<rparr>"
proof -
  have "(Suc (m_first_state c) mod N + N - Suc 0) mod N = m_first_state c"
    using ring_index_wrap [of "m_first_state c" N] assms by (simp add: Nat.add_diff_assoc)
  with assms show ?thesis by (simp add: AddState_def Let_def)
qed

lemma live_slots_full:
  assumes "m_states_num c = N" "m_first_state c < N" "0 < N"
  shows "live_slots N c = m_first_state c # tl (live_slots N c)"
  using assms by (simp add: live_slots_def upt_conv_Cons map_tl [symmetric] del: upt_Suc)

lemma live_slots_AddState:
  assumes "ctrl_inv N c"
  shows "live_slots N (AddState N c s) =
           (if m_states_num c = N then tl (live_slots N c) else live_slots N c)
             @ [(m_first_state c + m_states_num c) mod N]"
proof (cases "m_states_num c = N")
  case False
  with assms have "m_states_num c < N" by (simp add: ctrl_inv_def)
  then show ?thesis
    by (simp add: AddState_not_full live_slots_def)
next
  case True
  with assms have f: "m_first_state c < N" "0 < N" by (simp_all add: ctrl_inv_def)
  have "map (\<lambda>k. ((m_first_state c + 1) mod N + k) mod N) [0..<N]
          = map (\<lambda>k. (m_first_state c + k) mod N) (map Suc [0..<N])"
    by (simp add: mod_add_left_eq)
  also have "map Suc [0..<N] = [Suc 0..<N] @ [N]"
    using f by (simp add: map_Suc_upt del: upt_Suc) (simp add: upt_Suc)
  finally show ?thesis
    using True f
    by (simp add: AddState_full live_slots_def map_tl [symmetric] del: upt_Suc)
qed

lemma AddState_arrays:
  assumes "ctrl_inv N c"
  shows "m_states (AddState N c s) = (m_states c)[(m_first_state c + m_states_num c) mod N := s]"
    and "m_private (AddState N c s) =
           (m_private c)[(m_first_state c + m_states_num c) mod N :=
              (m_private c ! ((m_first_state c + m_states_num c) mod N))\<lparr>obtained := False\<rparr>]"
    and "m_states_num (AddState N c s) = (if m_states_num c = N then N else m_states_num c + 1)"
    and "m_first_state (AddState N c s) =
           (if m_states_num c = N then (m_first_state c + 1) mod N else m_first_state c)"
    and "m_last_state (AddState N c s) = s"
    and "m_connected (AddState N c s) = m_connected c"
    and "m_connected_count (AddState N c s) = m_connected_count c"
    and "m_sdl_gamepad (AddState N c s) = m_sdl_gamepad c"
proof -
  have "m_states_num c < N \<or> m_states_num c = N \<and> m_first_state c < N \<and> 0 < N"
    using assms unfolding ctrl_inv_def by linarith
  then consider "m_states_num c < N" | "m_states_num c = N" "m_first_state c < N" "0 < N"
    by blast
  then have "m_states (AddState N c s) = (m_states c)[(m_first_state c + m_states_num c) mod N := s]
    \<and> m_private (AddState N c s) =
           (m_private c)[(m_first_state c + m_states_num c) mod N :=
              (m_private c ! ((m_first_state c + m_states_num c) mod N))\<lparr>obtained := False\<rparr>]
    \<and> m_states_num (AddState N c s) = (if m_states_num c = N then N else m_states_num c + 1)
    \<and> m_first_state (AddState N c s) =
           (if m_states_num c = N then (m_first_state c + 1) mod N else m_first_state c)
    \<and> m_last_state (AddState N c s) = s
    \<and> m_connected (AddState N c s) = m_connected c
    \<and> m_connected_count (AddState N c s) = m_connected_count c
    \<and> m_sdl_gamepad (AddState N c s) = m_sdl_gamepad c"
  proof cases
    case 1
    then show ?thesis by (simp add: AddState_not_full)
  next
    case 2
    then show ?thesis by (simp add: AddState_full)
  qed
  then show "m_states (AddState N c s) = (m_states c)[(m_first_state c + m_states_num c) mod N := s]"
    and "m_private (AddState N c s) =
           (m_private c)[(m_first_state c + m_states_num c) mod N :=
              (m_private c ! ((m_first_state c + m_states_num c) mod N))\<lparr>obtained := False\<rparr>]"
    and "m_states_num (AddState N c s) = (if m_states_num c = N then N else m_states_num c + 1)"
    and "m_first_state (AddState N c s) =
           (if m_states_num c = N then (m_first_state c + 1) mod N else m_first_state c)"
    and "m_last_state (AddState N c s) = s"
    and "m_connected (AddState N c s) = m_connected c"
    and "m_connected_count (AddState N c s) = m_connected_count c"
    and "m_sdl_gamepad (AddState N c s) = m_sdl_gamepad c"
    by simp_all
qed

lemma ctrl_inv_AddState:
  assumes "ctrl_inv N c"
  shows "ctrl_inv N (AddState N c s)"
  using assms AddState_arrays(1-4) [OF assms, of s] by (simp add: ctrl_inv_def)

lemma write_slot_fresh:
  assumes "ctrl_inv N c"
  shows "(m_first_state c + m_states_num c) mod N
           \<notin> set (if m_states_num c = N then tl (live_slots N c) else live_slots N c)"
proof (cases "m_states_num c = N")
  case False
  with assms have "m_states_num c < N" by (simp add: ctrl_inv_def)
  with False show ?thesis by (simp add: next_slot_not_live)
next
  case True
  with assms have f: "m_first_state c < N" "0 < N" by (simp_all add: ctrl_inv_def)
  have "distinct (live_slots N c)" using True by (simp add: distinct_live_slots)
  then have "distinct (m_first_state c # tl (live_slots N c))"
    using live_slots_full [OF True f] by simp
  then show ?thesis using True f by simp
qed

lemma write_slot_bound: "ctrl_inv N c \<Longrightarrow> (m_first_state c + m_states_num c) mod N < N"
  by (simp add: ctrl_inv_def)

lemma live_states_AddState:
  assumes "ctrl_inv N c"
  shows "live_states N (AddState N c s) =
           (if m_states_num c = N then tl (live_states N c) else live_states N c) @ [s]"
proof -
  let ?w = "(m_first_state c + m_states_num c) mod N"
  let ?old = "if m_states_num c = N then tl (live_slots N c) else live_slots N c"
  have len: "?w < length (m_states c)" using assms by (simp add: ctrl_inv_def)
  have same: "map (\<lambda>j. (m_states c)[?w := s] ! j) ?old = map (\<lambda>j. m_states c ! j) ?old"
  proof (rule map_cong [OF refl])
    fix j
    assume "j \<in> set ?old"
    with write_slot_fresh [OF assms] have "?w \<noteq> j" by metis
    then show "(m_states c)[?w := s] ! j = m_states c ! j" by simp
  qed
  have "live_states N (AddState N c s) = map (\<lambda>j. (m_states c)[?w := s] ! j) (?old @ [?w])"
    by (simp only: live_states_def live_slots_AddState [OF assms] AddState_arrays(1) [OF assms])
  also have "\<dots> = map (\<lambda>j. (m_states c)[?w := s] ! j) ?old @ [s]"
    using len by simp
  also have "\<dots> = map (\<lambda>j. m_states c ! j) ?old @ [s]"
    by (simp only: same)
  also have "map (\<lambda>j. m_states c ! j) ?old =
      (if m_states_num c = N then tl (live_states N c) else live_states N c)"
    by (simp add: live_states_def map_tl)
  finally show ?thesis .
qed

lemma GetLastState_live:
  "m_states_num c \<noteq> 0 \<Longrightarrow> GetLastState N c = last (live_states N c)"
  by (cases "m_states_num c")
     (simp_all add: GetLastState_def live_states_def live_slots_def last_map)

lemma GetLastState_AddState:
  assumes "ctrl_inv N c"
  shows "GetLastState N (AddState N c s) = s"
proof -
  have "m_states_num (AddState N c s) \<noteq> 0"
    using assms AddState_arrays(3) [OF assms, of s] by (simp add: ctrl_inv_def)
  then have "GetLastState N (AddState N c s) = last (live_states N (AddState N c s))"
    by (rule GetLastState_live)
  then show ?thesis by (simp add: live_states_AddState [OF assms])
qed

lemma AddStates_ring:
  assumes "ctrl_inv N c"
  shows "ctrl_inv N (foldl (AddState N) c ss)
       \<and> m_states_num (foldl (AddState N) c ss) = min N (m_states_num c + length ss)
       \<and> live_states N (foldl (AddState N) c ss)
           = drop (m_states_num c + length ss - N) (live_states N c @ ss)"
  using assms
proof (induction ss arbitrary: c)
  case Nil
  then show ?case by (simp add: ctrl_inv_def)
next
  case (Cons s ss)
  let ?c1 = "AddState N c s"
  have inv1: "ctrl_inv N ?c1" using Cons.prems by (rule ctrl_inv_AddState)
  note ih = Cons.IH [OF inv1]
  have num: "m_states_num ?c1 = (if m_states_num c = N then N else m_states_num c + 1)"
    by (rule AddState_arrays(3) [OF Cons.prems])
  have live: "live_states N ?c1 =
      (if m_states_num c = N then tl (live_states N c) else live_states N c) @ [s]"
    by (rule live_states_AddState [OF Cons.prems])
  have le: "m_states_num c \<le> N" using Cons.prems by (simp add: ctrl_inv_def)
  have len: "length (live_states N c) = m_states_num c" by (simp add: live_states_def)
  show ?case
  proof (cases "m_states_num c = N")
    case True
    then have "live_states N c \<noteq> []"
      using Cons.prems len by (auto simp: ctrl_inv_def)
    then have "tl (live_states N c @ s # ss) = tl (live_states N c) @ s # ss"
      by simp
    then have "drop (Suc (length ss)) (live_states N c @ s # ss)
                 = drop (length ss) (tl (live_states N c) @ s # ss)"
      by (simp only: drop_Suc)
    with ih True show ?thesis by (simp add: num live)
  next
    case False
    with le have "m_states_num c < N" by simp
    with ih False show ?thesis by (simp add: num live)
  qed
qed

subsection \<open>The loop of \<open>ReadStates\<close>\<close>

lemma mark_obtained_Nil [simp]: "mark_obtained [] ps = ps"
  by (simp add: mark_obtained_def)

lemma mark_obtained_Cons [simp]:
  "mark_obtained (j # js) ps = mark_obtained js (ps[j := (ps ! j)\<lparr>obtained := True\<rparr>])"
  by (simp add: mark_obtained_def)

lemma length_mark_obtained [simp]: "length (mark_obtained js ps) = length ps"
  by (induction js arbitrary: ps) simp_all

lemma obtained_set_flag:
  "j < length ps \<Longrightarrow>
     obtained (ps[a := (ps ! a)\<lparr>obtained := True\<rparr>] ! j) \<longleftrightarrow> obtained (ps ! j) \<or> a = j"
  by (cases "a = j") simp_all

lemma obtained_mark_obtained:
  "j < length ps \<Longrightarrow> obtained (mark_obtained js ps ! j) \<longleftrightarrow> obtained (ps ! j) \<or> j \<in> set js"
  by (induction js arbitrary: ps) (auto simp: obtained_set_flag)

lemma live_slots_private_upd [simp]: "live_slots N (c\<lparr>m_private := ps\<rparr>) = live_slots N c"
  by (simp add: live_slots_def)

lemma drop_live_slots:
  assumes "i < m_states_num c"
  shows "drop i (live_slots N c) = (m_first_state c + i) mod N # drop (Suc i) (live_slots N c)"
  using assms Cons_nth_drop_Suc [of i "live_slots N c"] by (simp add: live_slots_nth)

lemma stores_shift:
  "zip (map (\<lambda>k. r + int k) [0..<Suc n]) (x # xs)
     = (r, x) # zip (map (\<lambda>k. r + 1 + int k) [0..<n]) xs"
proof -
  have "map (\<lambda>k. r + int k) [0..<Suc n] = r # map (\<lambda>k. r + 1 + int k) [0..<n]"
    by (simp add: map_upt_Suc add.assoc del: upt_Suc)
  then show ?thesis by simp
qed

lemma ReadStates_loop_eq:
  assumes "m_states_num c \<le> N"
  shows "ReadStates_loop N c states_num i ret_num stores =
     (let todo = take (nat (states_num - ret_num))
                   (filter (\<lambda>j. \<not> obtained (m_private c ! j)) (drop i (live_slots N c)))
      in (c\<lparr>m_private := mark_obtained todo (m_private c)\<rparr>,
          ret_num + int (length todo),
          stores @ zip (map (\<lambda>k. ret_num + int k) [0..<length todo])
                       (map (\<lambda>j. m_states c ! j) todo)))"
  using assms
proof (induction N c states_num i ret_num stores rule: ReadStates_loop.induct)
  case (1 N c states_num i ret_num stores)
  let ?P = "\<lambda>j. \<not> obtained (m_private c ! j)"
  show ?case
  proof (cases "i < m_states_num c")
    case False
    then show ?thesis by (subst ReadStates_loop.simps) simp
  next
    case live: True
    show ?thesis
    proof (cases "states_num \<le> ret_num")
      case True
      with live show ?thesis by (subst ReadStates_loop.simps) simp
    next
      case room: False
      let ?idx = "(m_first_state c + i) mod N"
      let ?rest = "drop (Suc i) (live_slots N c)"
      have split: "drop i (live_slots N c) = ?idx # ?rest"
        using live by (rule drop_live_slots)
      have "distinct (drop i (live_slots N c))"
        using "1.prems" by (simp add: distinct_live_slots)
      then have fresh: "?idx \<notin> set ?rest" by (simp add: split)
      show ?thesis
      proof (cases "obtained (m_private c ! ?idx)")
        case True
        have "ReadStates_loop N c states_num i ret_num stores
                = ReadStates_loop N c states_num (i + 1) ret_num stores"
          using live room True by (subst ReadStates_loop.simps) simp
        also note "1.IH"(2) [OF live _ refl _ "1.prems"]
        finally show ?thesis using room True by (simp add: split)
      next
        case False
        let ?c2 = "c\<lparr>m_private := (m_private c)[?idx := (m_private c ! ?idx)\<lparr>obtained := True\<rparr>]\<rparr>"
        let ?todo' = "take (nat (states_num - (ret_num + 1))) (filter ?P ?rest)"
        have same: "filter (\<lambda>j. \<not> obtained
                        ((m_private c)[?idx := (m_private c ! ?idx)\<lparr>obtained := True\<rparr>] ! j)) ?rest
                      = filter ?P ?rest"
        proof (rule filter_cong [OF refl])
          fix j assume "j \<in> set ?rest"
          with fresh have "?idx \<noteq> j" by metis
          then show "(\<not> obtained
                        ((m_private c)[?idx := (m_private c ! ?idx)\<lparr>obtained := True\<rparr>] ! j))
                      = (\<not> obtained (m_private c ! j))" by simp
        qed
        have todo: "take (nat (states_num - ret_num)) (filter ?P (drop i (live_slots N c)))
                      = ?idx # ?todo'"
        proof -
          have "nat (states_num - ret_num) = Suc (nat (states_num - (ret_num + 1)))"
            using room by simp
          then show ?thesis using False by (simp add: split)
        qed
        have "ReadStates_loop N c states_num i ret_num stores
                = ReadStates_loop N ?c2 states_num (i + 1) (ret_num + 1)
                    (stores @ [(ret_num, m_states c ! ?idx)])"
          using live room False by (subst ReadStates_loop.simps) (simp add: Let_def)
        also have "\<dots> =
            (?c2\<lparr>m_private := mark_obtained ?todo' (m_private ?c2)\<rparr>,
             ret_num + 1 + int (length ?todo'),
             (stores @ [(ret_num, m_states c ! ?idx)])
               @ zip (map (\<lambda>k. ret_num + 1 + int k) [0..<length ?todo'])
                     (map (\<lambda>j. m_states c ! j) ?todo'))"
          using "1.IH"(1) [OF live _ refl _ , of ] room False "1.prems"
          by (simp add: Let_def same del: upt_Suc)
        finally show ?thesis
          unfolding Let_def todo
          by (simp add: stores_shift del: upt_Suc)
      qed
    qed
  qed
qed

subsection \<open>The effect of \<open>ReadStates\<close> on a ring that is not empty\<close>

lemma filter_without_taken:
  assumes "distinct xs"
  shows "filter (\<lambda>x. P x \<and> x \<notin> set (take n (filter P xs))) xs = drop n (filter P xs)"
proof -
  let ?ys = "filter P xs"
  have d: "distinct ?ys" using assms by simp
  have "filter (\<lambda>x. P x \<and> x \<notin> set (take n ?ys)) xs = filter (\<lambda>x. x \<notin> set (take n ?ys)) ?ys"
    by simp
  also have "\<dots> = filter (\<lambda>x. x \<notin> set (take n ?ys)) (take n ?ys @ drop n ?ys)"
    by simp
  also have "\<dots> = filter (\<lambda>x. x \<notin> set (take n ?ys)) (drop n ?ys)"
    by (simp only: filter_append) (simp add: filter_empty_conv)
  also have "\<dots> = drop n ?ys"
  proof -
    have "set (take n ?ys) \<inter> set (drop n ?ys) = {}"
      using d by (rule set_take_disj_set_drop_if_distinct) simp
    then show ?thesis by (auto simp: filter_id_conv)
  qed
  finally show ?thesis .
qed

lemma ReadStates_nonempty:
  assumes "m_connected c" and "m_states_num c \<noteq> 0" and "m_states_num c \<le> N"
  shows "ReadStates N c states_num =
     (c\<lparr>m_private := mark_obtained (take (nat states_num) (unread_slots N c)) (m_private c)\<rparr>,
      int (length (take (nat states_num) (unread_slots N c))),
      zip (map int [0..<length (take (nat states_num) (unread_slots N c))])
          (map (\<lambda>j. m_states c ! j) (take (nat states_num) (unread_slots N c))),
      True, m_connected_count c)"
  using assms
  by (simp add: ReadStates_def ReadStates_loop_eq Let_def unread_slots_def del: upt_Suc)

lemma unread_slots_bound: "0 < N \<Longrightarrow> j \<in> set (unread_slots N c) \<Longrightarrow> j < N"
  by (auto simp: unread_slots_def live_slots_bound)

lemma unread_slots_marked:
  assumes "ctrl_inv N c"
  shows "unread_slots N (c\<lparr>m_private := mark_obtained (take n (unread_slots N c)) (m_private c)\<rparr>)
           = drop n (unread_slots N c)"
proof -
  let ?P = "\<lambda>j. \<not> obtained (m_private c ! j)"
  let ?todo = "take n (filter ?P (live_slots N c))"
  have "filter (\<lambda>j. \<not> obtained (mark_obtained ?todo (m_private c) ! j)) (live_slots N c)
          = filter (\<lambda>j. ?P j \<and> j \<notin> set ?todo) (live_slots N c)"
  proof (rule filter_cong [OF refl])
    fix j assume "j \<in> set (live_slots N c)"
    then have "j < length (m_private c)"
      using assms live_slots_bound [of N j c] by (simp add: ctrl_inv_def)
    then show "(\<not> obtained (mark_obtained ?todo (m_private c) ! j)) = (?P j \<and> j \<notin> set ?todo)"
      by (simp add: obtained_mark_obtained)
  qed
  also have "\<dots> = drop n (filter ?P (live_slots N c))"
    using assms by (intro filter_without_taken distinct_live_slots) (simp add: ctrl_inv_def)
  finally show ?thesis by (simp add: unread_slots_def)
qed

lemma distinct_unread_slots: "ctrl_inv N c \<Longrightarrow> distinct (unread_slots N c)"
  by (simp add: unread_slots_def distinct_live_slots ctrl_inv_def)

lemma unread_states_AddState:
  assumes "ctrl_inv N c"
  shows "\<exists>old. unread_states N (AddState N c s) = old @ [s] \<and> subseq old (unread_states N c)"
proof -
  let ?w = "(m_first_state c + m_states_num c) mod N"
  let ?old = "if m_states_num c = N then tl (live_slots N c) else live_slots N c"
  let ?P = "\<lambda>j. \<not> obtained (m_private c ! j)"
  let ?ps = "(m_private c)[?w := (m_private c ! ?w)\<lparr>obtained := False\<rparr>]"
  have wp: "?w < length (m_private c)" and ws: "?w < length (m_states c)"
    using assms by (simp_all add: ctrl_inv_def)
  have fresh: "?w \<notin> set ?old" by (rule write_slot_fresh [OF assms])
  have flags: "filter (\<lambda>j. \<not> obtained (?ps ! j)) ?old = filter ?P ?old"
  proof (rule filter_cong [OF refl])
    fix j assume "j \<in> set ?old"
    with fresh have "?w \<noteq> j" by metis
    then show "(\<not> obtained (?ps ! j)) = (\<not> obtained (m_private c ! j))" by simp
  qed
  have "unread_slots N (AddState N c s) = filter (\<lambda>j. \<not> obtained (?ps ! j)) (?old @ [?w])"
    by (simp only: unread_slots_def live_slots_AddState [OF assms] AddState_arrays(2) [OF assms])
  also have "\<dots> = filter ?P ?old @ [?w]"
    using wp by (simp only: filter_append flags) simp
  finally have slots: "unread_slots N (AddState N c s) = filter ?P ?old @ [?w]" .
  have "map (\<lambda>j. (m_states c)[?w := s] ! j) (filter ?P ?old) = map (\<lambda>j. m_states c ! j) (filter ?P ?old)"
  proof (rule map_cong [OF refl])
    fix j assume "j \<in> set (filter ?P ?old)"
    then have "j \<in> set ?old" by simp
    with fresh have "?w \<noteq> j" by metis
    then show "(m_states c)[?w := s] ! j = m_states c ! j" by simp
  qed
  then have "unread_states N (AddState N c s) = map (\<lambda>j. m_states c ! j) (filter ?P ?old) @ [s]"
    using ws by (simp add: unread_states_def slots AddState_arrays(1) [OF assms])
  moreover have "subseq ?old (live_slots N c)"
    by (cases "live_slots N c") (auto intro!: list_emb_Cons)
  then have "subseq (map (\<lambda>j. m_states c ! j) (filter ?P ?old)) (unread_states N c)"
    unfolding unread_states_def unread_slots_def by (intro subseq_map) simp
  ultimately show ?thesis by blast
qed

lemma unread_states_marked:
  assumes "ctrl_inv N c"
  shows "unread_states N (c\<lparr>m_private := mark_obtained (take n (unread_slots N c)) (m_private c)\<rparr>)
           = drop n (unread_states N c)"
  by (simp add: unread_states_def unread_slots_marked [OF assms] drop_map)

lemma ctrl_inv_marked: "ctrl_inv N c \<Longrightarrow> ctrl_inv N (c\<lparr>m_private := mark_obtained js (m_private c)\<rparr>)"
  by (simp add: ctrl_inv_def)

lemma run_ops_subseq:
  assumes "ctrl_inv N c" and "m_connected c" and "m_states_num c \<noteq> 0"
  shows "subseq (concat (snd (run_ops N c ops)) @ unread_states N (fst (run_ops N c ops)))
                (unread_states N c @ appended ops)"
  using assms
proof (induction ops arbitrary: c)
  case Nil
  then show ?case by simp
next
  case (Cons op ops)
  show ?case
  proof (cases op)
    case (Append s)
    let ?c1 = "AddState N c s"
    have inv1: "ctrl_inv N ?c1" using Cons.prems(1) by (rule ctrl_inv_AddState)
    have "m_connected ?c1" "m_states_num ?c1 \<noteq> 0"
      using Cons.prems AddState_arrays(3,6) [OF Cons.prems(1), of s] by (auto simp: ctrl_inv_def)
    with inv1 have ih: "subseq (concat (snd (run_ops N ?c1 ops)) @ unread_states N (fst (run_ops N ?c1 ops)))
                   (unread_states N ?c1 @ appended ops)"
      by (rule Cons.IH)
    obtain old where old: "unread_states N ?c1 = old @ [s]" "subseq old (unread_states N c)"
      using unread_states_AddState [OF Cons.prems(1)] by blast
    have "subseq ((old @ [s]) @ appended ops) (unread_states N c @ s # appended ops)"
      using old(2) by (simp add: list_emb_append_mono)
    with ih show ?thesis
      unfolding Append old(1) by (simp add: subseq_order.order_trans)
  next
    case (Drain states_num)
    let ?todo = "take (nat states_num) (unread_slots N c)"
    let ?c1 = "c\<lparr>m_private := mark_obtained ?todo (m_private c)\<rparr>"
    have rs: "ReadStates N c states_num =
        (?c1, int (length ?todo),
         zip (map int [0..<length ?todo]) (map (\<lambda>j. m_states c ! j) ?todo), True, m_connected_count c)"
      using Cons.prems by (intro ReadStates_nonempty) (simp_all add: ctrl_inv_def)
    have out: "map snd (zip (map int [0..<length ?todo]) (map (\<lambda>j. m_states c ! j) ?todo))
                 = take (nat states_num) (unread_states N c)"
      by (simp add: unread_states_def take_map del: upt_Suc)
    have "ctrl_inv N ?c1" "m_connected ?c1" "m_states_num ?c1 \<noteq> 0"
      using Cons.prems by (simp_all add: ctrl_inv_marked)
    then have ih: "subseq (concat (snd (run_ops N ?c1 ops)) @ unread_states N (fst (run_ops N ?c1 ops)))
                   (unread_states N ?c1 @ appended ops)"
      by (rule Cons.IH)
    have step: "run_ops N c (Drain states_num # ops) =
        (fst (run_ops N ?c1 ops), take (nat states_num) (unread_states N c) # snd (run_ops N ?c1 ops))"
      by (simp only: run_ops.simps rs prod.case split_beta fst_conv snd_conv out)
    have "subseq (take (nat states_num) (unread_states N c)
                   @ (concat (snd (run_ops N ?c1 ops)) @ unread_states N (fst (run_ops N ?c1 ops))))
                 (take (nat states_num) (unread_states N c)
                   @ (drop (nat states_num) (unread_states N c) @ appended ops))"
      using ih by (simp only: unread_states_marked [OF Cons.prems(1)] subseq_append')
    then show ?thesis
      unfolding Drain step by (simp add: append_assoc [symmetric] del: append_assoc)
  qed
qed

subsection \<open>The event handlers\<close>

lemma CheckButton_AddState:
  "CheckButton N now c pad_id button isPressed =
     AddState N c ((GetLastState N c)
       \<lparr>time := now,
        buttonsState := (if isPressed then buttonsState (GetLastState N c) OR button
                         else buttonsState (GetLastState N c) AND NOT button)\<rparr>)"
  by (simp add: CheckButton_def Let_def)

lemma Axis_AddState:
  "Axis N l2 r2 now c pad_id axis v =
     AddState N c ((GetLastState N c)
       \<lparr>time := now,
        axes := (axes (GetLastState N c))(axis := v),
        buttonsState :=
          (if axis = TriggerLeft then
             if v > 31 then buttonsState (GetLastState N c) OR l2
             else if v < 16 then buttonsState (GetLastState N c) AND NOT l2
             else buttonsState (GetLastState N c)
           else if axis = TriggerRight then
             if v > 31 then buttonsState (GetLastState N c) OR r2
             else if v < 16 then buttonsState (GetLastState N c) AND NOT r2
             else buttonsState (GetLastState N c)
           else buttonsState (GetLastState N c))\<rparr>)"
  by (simp add: Axis_def Let_def)

lemma handle_event_AddState:
  "\<exists>s. handle_event N l2 r2 c (t, e) = AddState N c s \<and> time s = t"
proof (cases e)
  case (ButtonEvent pad_id button isPressed)
  show ?thesis
    unfolding ButtonEvent handle_event.simps CheckButton_AddState
    by (intro exI conjI, rule refl) simp
next
  case (AxisEvent pad_id axis v)
  show ?thesis
    unfolding AxisEvent handle_event.simps Axis_AddState [of N l2 r2]
    by (intro exI conjI, rule refl) simp
qed

lemma ctrl_inv_handle_event: "ctrl_inv N c \<Longrightarrow> ctrl_inv N (handle_event N l2 r2 c ev)"
  using handle_event_AddState [of N l2 r2 c "fst ev" "snd ev"]
  by (auto simp: ctrl_inv_AddState)

lemma live_states_handle_event:
  assumes "ctrl_inv N c"
  shows "\<exists>s. time s = t \<and>
           live_states N (handle_event N l2 r2 c (t, e))
             = (if m_states_num c = N then tl (live_states N c) else live_states N c) @ [s]"
  using handle_event_AddState [of N l2 r2 c t e] live_states_AddState [OF assms]
  by auto

lemma l2_bits: "(x OR m) AND m = m" "(x AND NOT m) AND m = 0" for x m :: u32
  by (auto simp: bit_eq_iff bit_simps)

lemma Axis_last:
  assumes "ctrl_inv N c"
  shows "GetLastState N (Axis N l2 r2 now c pad_id axis v) =
     (GetLastState N c)
       \<lparr>time := now,
        axes := (axes (GetLastState N c))(axis := v),
        buttonsState :=
          (if axis = TriggerLeft then
             if v > 31 then buttonsState (GetLastState N c) OR l2
             else if v < 16 then buttonsState (GetLastState N c) AND NOT l2
             else buttonsState (GetLastState N c)
           else if axis = TriggerRight then
             if v > 31 then buttonsState (GetLastState N c) OR r2
             else if v < 16 then buttonsState (GetLastState N c) AND NOT r2
             else buttonsState (GetLastState N c)
           else buttonsState (GetLastState N c))\<rparr>"
  by (simp only: Axis_AddState [of N l2 r2] GetLastState_AddState [OF assms])

lemma ctrl_inv_Axis: "ctrl_inv N c \<Longrightarrow> ctrl_inv N (Axis N l2 r2 now c pad_id axis v)"
  by (simp only: Axis_AddState [of N l2 r2] ctrl_inv_AddState)

section \<open>The claims\<close>

text \<open>
  Claim C1. On a connected controller whose ring is not empty, a call of \<open>ReadStates\<close>
  with a capacity \<open>states_num \<ge> 0\<close> stores the first \<open>states_num\<close> states that
  are live and not yet obtained, oldest first, at \<open>states[0]\<close>, \<open>states[1]\<close>, ...;
  it returns their number, which is at most \<open>min states_num m_states_num\<close>; it sets
  the \<open>obtained\<close> flag of exactly the slots it has read and changes nothing else. The
  states still to be handed out afterwards are the former ones without those just
  stored, and the hypotheses hold again for the next call. Hence, in any run of
  \<open>AddState\<close> and \<open>ReadStates\<close> calls, the states handed out, in order, are a
  subsequence of the states that were waiting followed by the states appended: none
  comes twice, none out of order.
\<close>

theorem ReadStates_drain:
  assumes inv: "ctrl_inv N c" and conn: "m_connected c" and ne: "m_states_num c \<noteq> 0"
    and cap: "0 \<le> states_num"
  shows "(case ReadStates N c states_num of
            (c', ret_num, stores, isConnected, connectedCount) \<Rightarrow>
              map snd stores = take (nat states_num) (unread_states N c)
            \<and> map fst stores = map int [0..<length stores]
            \<and> ret_num = int (length stores)
            \<and> ret_num \<le> min states_num (int (m_states_num c))
            \<and> (\<forall>j<N. obtained (m_private c' ! j) \<longleftrightarrow>
                        obtained (m_private c ! j) \<or> j \<in> set (take (nat states_num) (unread_slots N c)))
            \<and> c' = c\<lparr>m_private := m_private c'\<rparr>
            \<and> unread_slots N c' = drop (nat states_num) (unread_slots N c)
            \<and> unread_states N c' = drop (nat states_num) (unread_states N c)
            \<and> ctrl_inv N c' \<and> m_connected c' \<and> m_states_num c' \<noteq> 0)
       \<and> distinct (unread_slots N c)
       \<and> subseq (concat (snd (run_ops N c ops))) (unread_states N c @ appended ops)"
proof -
  define todo where "todo = take (nat states_num) (unread_slots N c)"
  define c1 where "c1 = c\<lparr>m_private := mark_obtained todo (m_private c)\<rparr>"
  define stores where "stores = zip (map int [0..<length todo]) (map (\<lambda>j. m_states c ! j) todo)"
  have rs: "ReadStates N c states_num = (c1, int (length todo), stores, True, m_connected_count c)"
    unfolding stores_def c1_def todo_def
    using conn ne inv by (intro ReadStates_nonempty) (simp_all add: ctrl_inv_def)
  have len: "length stores = length todo" by (simp add: stores_def)
  have 1: "map snd stores = take (nat states_num) (unread_states N c)"
    by (simp add: stores_def todo_def unread_states_def take_map del: upt_Suc)
  have 2: "map fst stores = map int [0..<length stores]"
    unfolding len by (simp add: stores_def del: upt_Suc)
  have 3: "int (length todo) = int (length stores)" by (simp add: len)
  have "length (unread_slots N c) \<le> m_states_num c"
    by (simp add: unread_slots_def order_trans [OF length_filter_le])
  moreover have "length todo \<le> nat states_num" "length todo \<le> length (unread_slots N c)"
    by (simp_all add: todo_def)
  ultimately have "int (length todo) \<le> states_num" "int (length todo) \<le> int (m_states_num c)"
    using cap by linarith+
  then have 4: "int (length todo) \<le> min states_num (int (m_states_num c))"
    by simp
  have 5: "\<forall>j<N. obtained (m_private c1 ! j) \<longleftrightarrow>
              obtained (m_private c ! j) \<or> j \<in> set (take (nat states_num) (unread_slots N c))"
    using inv by (simp add: c1_def todo_def obtained_mark_obtained ctrl_inv_def)
  have 6: "c1 = c\<lparr>m_private := m_private c1\<rparr>" by (simp add: c1_def)
  have 7: "unread_slots N c1 = drop (nat states_num) (unread_slots N c)"
    unfolding c1_def todo_def by (rule unread_slots_marked [OF inv])
  have 8: "unread_states N c1 = drop (nat states_num) (unread_states N c)"
    unfolding c1_def todo_def by (rule unread_states_marked [OF inv])
  have 9: "ctrl_inv N c1" "m_connected c1" "m_states_num c1 \<noteq> 0"
    using inv conn ne by (simp_all add: c1_def ctrl_inv_marked)
  have "subseq (concat (snd (run_ops N c ops)))
               (concat (snd (run_ops N c ops)) @ unread_states N (fst (run_ops N c ops)))"
    by (rule subseq_rev_drop_many) simp
  then have run: "subseq (concat (snd (run_ops N c ops))) (unread_states N c @ appended ops)"
    using run_ops_subseq [OF inv conn ne, of ops] by (rule subseq_order.order_trans)
  show ?thesis
    unfolding rs prod.case
    using 1 2 3 4 5 6 7 8 9 run distinct_unread_slots [OF inv]
    by blast
qed

theorem ReadStates_drain_witness:
  "ctrl_inv 4 pad_wrapped \<and> m_connected pad_wrapped \<and> m_states_num pad_wrapped \<noteq> 0
     \<and> (0::int) \<le> 3
     \<and> ((case ReadStates 4 pad_wrapped 3 of
            (c', ret_num, stores, isConnected, connectedCount) \<Rightarrow>
              map snd stores = take (nat 3) (unread_states 4 pad_wrapped)
            \<and> map fst stores = map int [0..<length stores]
            \<and> ret_num = int (length stores)
            \<and> ret_num \<le> min 3 (int (m_states_num pad_wrapped))
            \<and> (\<forall>j<4. obtained (m_private c' ! j) \<longleftrightarrow>
                        obtained (m_private pad_wrapped ! j) \<or> j \<in> set (take (nat 3) (unread_slots 4 pad_wrapped)))
            \<and> c' = pad_wrapped\<lparr>m_private := m_private c'\<rparr>
            \<and> unread_slots 4 c' = drop (nat 3) (unread_slots 4 pad_wrapped)
            \<and> unread_states 4 c' = drop (nat 3) (unread_states 4 pad_wrapped)
            \<and> ctrl_inv 4 c' \<and> m_connected c' \<and> m_states_num c' \<noteq> 0)
       \<and> distinct (unread_slots 4 pad_wrapped)
       \<and> subseq (concat (snd (run_ops 4 pad_wrapped [Drain 3, Append (sample 7), Drain 10, Drain 10]))) (unread_states 4 pad_wrapped @ appended [Drain 3, Append (sample 7), Drain 10, Drain 10]))
     \<and> ReadStates 4 pad_wrapped 3 =
          (pad_wrapped\<lparr>m_private := [\<lparr>obtained = True\<rparr>, \<lparr>obtained = False\<rparr>,
                                      \<lparr>obtained = True\<rparr>, \<lparr>obtained = True\<rparr>]\<rparr>,
           3, [(0, sample 3), (1, sample 4), (2, sample 5)], True, 1)
     \<and> snd (run_ops 4 pad_wrapped [Drain 3, Append (sample 7), Drain 10, Drain 10])
           = [[sample 3, sample 4, sample 5], [sample 6, sample 7], []]"
proof -
  have h: "ctrl_inv 4 pad_wrapped" "m_connected pad_wrapped" "m_states_num pad_wrapped \<noteq> 0"
    "(0::int) \<le> 3"
    by (simp_all add: ctrl_inv_def pad_wrapped_def)
  have run: "snd (run_ops 4 pad_wrapped [Drain 3, Append (sample 7), Drain 10, Drain 10])
           = [[sample 3, sample 4, sample 5], [sample 6, sample 7], []]"
    by (simp add: ReadStates_def ReadStates_loop.simps AddState_def pad_wrapped_def Let_def)
  have rs: "ReadStates 4 pad_wrapped 3 =
      (pad_wrapped\<lparr>m_private := [\<lparr>obtained = True\<rparr>, \<lparr>obtained = False\<rparr>,
                                  \<lparr>obtained = True\<rparr>, \<lparr>obtained = True\<rparr>]\<rparr>,
       3, [(0, sample 3), (1, sample 4), (2, sample 5)], True, 1)"
    by (simp add: ReadStates_def ReadStates_loop.simps pad_wrapped_def Let_def)
  show ?thesis
    using h run rs ReadStates_drain [OF h, of "[Drain 3, Append (sample 7), Drain 10, Drain 10]"]
    by blast
qed

text \<open>
  Claim C2. On a ring of capacity \<open>N\<close> that satisfies the invariant, \<open>AddState\<close>
  first, when the ring is full, advances the head index by one modulo \<open>N\<close> and drops
  the oldest state; then it stores the new state at index \<open>(first + count) mod N\<close>,
  clears the \<open>obtained\<close> flag of that slot, increments the count and sets
  \<open>m_last_state\<close>. The count is then between 1 and \<open>N\<close>, the new state is the
  newest live state, and the connection fields and the device pointer are untouched.
  After any sequence of appends the invariant holds, the count is
  \<open>min N (count + appends)\<close>, and the live states are the last ones appended.
\<close>

theorem AddState_appends:
  assumes inv: "ctrl_inv N c"
  shows "(let c' = AddState N c s;
              full = (m_states_num c = N);
              first' = (if full then (m_first_state c + 1) mod N else m_first_state c);
              count' = (if full then N - 1 else m_states_num c);
              index = (first' + count') mod N
          in m_first_state c' = first'
           \<and> m_states c' = (m_states c)[index := s]
           \<and> m_private c' = (m_private c)[index := (m_private c ! index)\<lparr>obtained := False\<rparr>]
           \<and> index < N \<and> m_states c' ! index = s \<and> \<not> obtained (m_private c' ! index)
           \<and> m_states_num c' = count' + 1
           \<and> m_last_state c' = s
           \<and> 1 \<le> m_states_num c' \<and> m_states_num c' \<le> N
           \<and> live_states N c' = (if full then tl (live_states N c) else live_states N c) @ [s]
           \<and> m_connected c' = m_connected c
           \<and> m_connected_count c' = m_connected_count c
           \<and> m_sdl_gamepad c' = m_sdl_gamepad c
           \<and> ctrl_inv N c')
       \<and> (let cn = foldl (AddState N) c ss
          in ctrl_inv N cn
           \<and> m_states_num cn = min N (m_states_num c + length ss)
           \<and> live_states N cn = drop (m_states_num c + length ss - N) (live_states N c @ ss))"
proof -
  define first' where "first' = (if m_states_num c = N then (m_first_state c + 1) mod N else m_first_state c)"
  define count' where "count' = (if m_states_num c = N then N - 1 else m_states_num c)"
  define index where "index = (first' + count') mod N"
  have N: "0 < N" "m_first_state c < N" "m_states_num c \<le> N"
    "length (m_states c) = N" "length (m_private c) = N"
    using inv by (simp_all add: ctrl_inv_def)
  have index: "index = (m_first_state c + m_states_num c) mod N"
  proof (cases "m_states_num c = N")
    case True
    then show ?thesis
      using ring_index_wrap [OF N(2)] N by (simp add: index_def first'_def count'_def)
  next
    case False
    then show ?thesis by (simp add: index_def first'_def count'_def)
  qed
  note A = AddState_arrays [OF inv, of s, folded index]
  have lt: "index < N" using N by (simp add: index_def)
  have 1: "m_first_state (AddState N c s) = first'" using A(4) by (simp add: first'_def)
  have 2: "m_states (AddState N c s) ! index = s" using A(1) lt N by simp
  have 3: "\<not> obtained (m_private (AddState N c s) ! index)" using A(2) lt N by simp
  have 4: "m_states_num (AddState N c s) = count' + 1" using A(3) N by (auto simp: count'_def)
  have 5: "1 \<le> m_states_num (AddState N c s)" "m_states_num (AddState N c s) \<le> N"
    using A(3) N by auto
  have one: "m_first_state (AddState N c s) = first'
           \<and> m_states (AddState N c s) = (m_states c)[index := s]
           \<and> m_private (AddState N c s) = (m_private c)[index := (m_private c ! index)\<lparr>obtained := False\<rparr>]
           \<and> index < N \<and> m_states (AddState N c s) ! index = s
           \<and> \<not> obtained (m_private (AddState N c s) ! index)
           \<and> m_states_num (AddState N c s) = count' + 1
           \<and> m_last_state (AddState N c s) = s
           \<and> 1 \<le> m_states_num (AddState N c s) \<and> m_states_num (AddState N c s) \<le> N
           \<and> live_states N (AddState N c s)
               = (if m_states_num c = N then tl (live_states N c) else live_states N c) @ [s]
           \<and> m_connected (AddState N c s) = m_connected c
           \<and> m_connected_count (AddState N c s) = m_connected_count c
           \<and> m_sdl_gamepad (AddState N c s) = m_sdl_gamepad c
           \<and> ctrl_inv N (AddState N c s)"
    using 1 2 3 4 5 lt A(1,2,5,6,7,8) live_states_AddState [OF inv, of s] ctrl_inv_AddState [OF inv, of s]
    by blast
  show ?thesis
    unfolding Let_def
    using one [unfolded index_def first'_def count'_def] AddStates_ring [OF inv, of ss]
    by blast
qed

theorem AddState_appends_witness:
  "ctrl_inv 4 pad_wrapped
     \<and> ((let c' = AddState 4 pad_wrapped (sample 7);
              full = (m_states_num pad_wrapped = 4);
              first' = (if full then (m_first_state pad_wrapped + 1) mod 4 else m_first_state pad_wrapped);
              count' = (if full then 4 - 1 else m_states_num pad_wrapped);
              index = (first' + count') mod 4
          in m_first_state c' = first'
           \<and> m_states c' = (m_states pad_wrapped)[index := (sample 7)]
           \<and> m_private c' = (m_private pad_wrapped)[index := (m_private pad_wrapped ! index)\<lparr>obtained := False\<rparr>]
           \<and> index < 4 \<and> m_states c' ! index = (sample 7) \<and> \<not> obtained (m_private c' ! index)
           \<and> m_states_num c' = count' + 1
           \<and> m_last_state c' = (sample 7)
           \<and> 1 \<le> m_states_num c' \<and> m_states_num c' \<le> 4
           \<and> live_states 4 c' = (if full then tl (live_states 4 pad_wrapped) else live_states 4 pad_wrapped) @ [(sample 7)]
           \<and> m_connected c' = m_connected pad_wrapped
           \<and> m_connected_count c' = m_connected_count pad_wrapped
           \<and> m_sdl_gamepad c' = m_sdl_gamepad pad_wrapped
           \<and> ctrl_inv 4 c')
       \<and> (let cn = foldl (AddState 4) pad_wrapped [sample 7, sample 8]
          in ctrl_inv 4 cn
           \<and> m_states_num cn = min 4 (m_states_num pad_wrapped + length [sample 7, sample 8])
           \<and> live_states 4 cn = drop (m_states_num pad_wrapped + length [sample 7, sample 8] - 4) (live_states 4 pad_wrapped @ [sample 7, sample 8])))
     \<and> AddState 4 pad_wrapped (sample 7) =
          \<lparr>m_connected = True, m_last_state = sample 7, m_connected_count = 1,
           m_states_num = 4, m_first_state = 3,
           m_states = [sample 5, sample 6, sample 7, sample 4],
           m_private = [\<lparr>obtained = False\<rparr>, \<lparr>obtained = False\<rparr>,
                        \<lparr>obtained = False\<rparr>, \<lparr>obtained = False\<rparr>],
           m_sdl_gamepad = None\<rparr>
     \<and> foldl (AddState 4) pad_idle (map sample [1, 2, 3, 4, 5, 6]) = pad_wrapped
     \<and> live_states 4 pad_wrapped = [sample 3, sample 4, sample 5, sample 6]"
proof -
  have h: "ctrl_inv 4 pad_wrapped"
    by (simp add: ctrl_inv_def pad_wrapped_def)
  have add: "AddState 4 pad_wrapped (sample 7) =
          \<lparr>m_connected = True, m_last_state = sample 7, m_connected_count = 1,
           m_states_num = 4, m_first_state = 3,
           m_states = [sample 5, sample 6, sample 7, sample 4],
           m_private = [\<lparr>obtained = False\<rparr>, \<lparr>obtained = False\<rparr>,
                        \<lparr>obtained = False\<rparr>, \<lparr>obtained = False\<rparr>],
           m_sdl_gamepad = None\<rparr>"
    by (simp add: AddState_def pad_wrapped_def Let_def)
  have run: "foldl (AddState 4) pad_idle (map sample [1, 2, 3, 4, 5, 6]) = pad_wrapped"
    by (simp add: pad_idle_def pad_wrapped_def AddState_def Let_def)
  have live: "live_states 4 pad_wrapped = [sample 3, sample 4, sample 5, sample 6]"
    by (simp add: live_states_def live_slots_def pad_wrapped_def upt_rec)
  show ?thesis
    using h add run live AddState_appends [OF h, of "sample 7" "[sample 7, sample 8]"]
    by blast
qed

text \<open>
  Claim C3. An \<open>Axis\<close> call for \<open>TriggerLeft\<close> with value \<open>v\<close> leaves in the
  latest state the buttons of the former latest state with the L2 mask set when
  \<open>v > 31\<close>, cleared when \<open>v < 16\<close>, and unchanged when \<open>16 \<le> v \<le> 31\<close>;
  likewise for \<open>TriggerRight\<close> and the R2 mask. The values 0, 20, 28, 40, 20, 10 on
  the left trigger, from any state of the ring, give the L2 bits off, off, off, on, on,
  off.
\<close>

theorem Axis_trigger_hysteresis:
  assumes inv: "ctrl_inv N c"
  shows "(let b = buttonsState (GetLastState N c);
              bl = buttonsState (GetLastState N (Axis N l2 r2 now c pad_id TriggerLeft v));
              br = buttonsState (GetLastState N (Axis N l2 r2 now c pad_id TriggerRight v))
          in (v > 31 \<longrightarrow> bl = b OR l2 \<and> bl AND l2 = l2 \<and> br = b OR r2 \<and> br AND r2 = r2)
           \<and> (v < 16 \<longrightarrow> bl = b AND NOT l2 \<and> bl AND l2 = 0 \<and> br = b AND NOT r2 \<and> br AND r2 = 0)
           \<and> (16 \<le> v \<and> v \<le> 31 \<longrightarrow> bl = b \<and> br = b))
       \<and> map (\<lambda>c'. buttonsState (GetLastState N c') AND l2)
           (handle_events_trace N l2 r2 c
              [(t1, AxisEvent pad_id TriggerLeft 0), (t2, AxisEvent pad_id TriggerLeft 20),
               (t3, AxisEvent pad_id TriggerLeft 28), (t4, AxisEvent pad_id TriggerLeft 40),
               (t5, AxisEvent pad_id TriggerLeft 20), (t6, AxisEvent pad_id TriggerLeft 10)])
           = [0, 0, 0, l2, l2, 0]"
proof -
  have step: "(let b = buttonsState (GetLastState N c);
              bl = buttonsState (GetLastState N (Axis N l2 r2 now c pad_id TriggerLeft v));
              br = buttonsState (GetLastState N (Axis N l2 r2 now c pad_id TriggerRight v))
          in (v > 31 \<longrightarrow> bl = b OR l2 \<and> bl AND l2 = l2 \<and> br = b OR r2 \<and> br AND r2 = r2)
           \<and> (v < 16 \<longrightarrow> bl = b AND NOT l2 \<and> bl AND l2 = 0 \<and> br = b AND NOT r2 \<and> br AND r2 = 0)
           \<and> (16 \<le> v \<and> v \<le> 31 \<longrightarrow> bl = b \<and> br = b))"
    by (simp add: Let_def Axis_last [OF inv] l2_bits)
  have seq: "map (\<lambda>c'. buttonsState (GetLastState N c') AND l2)
           (handle_events_trace N l2 r2 c
              [(t1, AxisEvent pad_id TriggerLeft 0), (t2, AxisEvent pad_id TriggerLeft 20),
               (t3, AxisEvent pad_id TriggerLeft 28), (t4, AxisEvent pad_id TriggerLeft 40),
               (t5, AxisEvent pad_id TriggerLeft 20), (t6, AxisEvent pad_id TriggerLeft 10)])
           = [0, 0, 0, l2, l2, 0]"
    using inv by (simp add: Axis_last ctrl_inv_Axis l2_bits)
  from step seq show ?thesis by (rule conjI)
qed

theorem Axis_trigger_hysteresis_witness:
  "ctrl_inv 4 pad_wrapped
     \<and> (let b = buttonsState (GetLastState 4 pad_wrapped);
              bl = buttonsState (GetLastState 4 (Axis 4 256 512 7 pad_wrapped 0 TriggerLeft (40::int)));
              br = buttonsState (GetLastState 4 (Axis 4 256 512 7 pad_wrapped 0 TriggerRight (40::int)))
          in ((40::int) > 31 \<longrightarrow> bl = b OR 256 \<and> bl AND 256 = 256 \<and> br = b OR 512 \<and> br AND 512 = 512)
           \<and> ((40::int) < 16 \<longrightarrow> bl = b AND NOT 256 \<and> bl AND 256 = 0 \<and> br = b AND NOT 512 \<and> br AND 512 = 0)
           \<and> (16 \<le> (40::int) \<and> (40::int) \<le> 31 \<longrightarrow> bl = b \<and> br = b))
       \<and> map (\<lambda>c'. buttonsState (GetLastState 4 c') AND 256)
           (handle_events_trace 4 256 512 pad_wrapped
              [(7, AxisEvent 0 TriggerLeft 0), (8, AxisEvent 0 TriggerLeft 20),
               (9, AxisEvent 0 TriggerLeft 28), (10, AxisEvent 0 TriggerLeft 40),
               (11, AxisEvent 0 TriggerLeft 20), (12, AxisEvent 0 TriggerLeft 10)])
           = [0, 0, 0, 256, 256, 0]"
proof -
  have h: "ctrl_inv 4 pad_wrapped"
    by (simp add: ctrl_inv_def pad_wrapped_def)
  note T = Axis_trigger_hysteresis [OF h, where ?l2.0 = 256 and ?r2.0 = 512 and now = 7
      and pad_id = 0 and v = 40 and ?t1.0 = 7 and ?t2.0 = 8 and ?t3.0 = 9 and ?t4.0 = 10
      and ?t5.0 = 11 and ?t6.0 = 12]
  show ?thesis
    by (intro conjI h T [THEN conjunct1] T [THEN conjunct2])
qed

text \<open>
  Claim C4. A call of \<open>ReadStates\<close> on a connected controller whose ring holds no
  state stores the latest state, which then is \<open>m_last_state\<close>, into \<open>states[0]\<close>
  and returns 1, whatever the capacity argument is. The object is left as it was.
\<close>

theorem ReadStates_empty_ring:
  assumes "m_connected c" and "m_states_num c = 0"
  shows "ReadStates N c states_num = (c, 1, [(0, GetLastState N c)], True, m_connected_count c)
       \<and> GetLastState N c = m_last_state c"
  using assms by (simp add: ReadStates_def GetLastState_def)

theorem ReadStates_empty_ring_witness:
  "m_connected pad_idle \<and> m_states_num pad_idle = 0
     \<and> ReadStates 4 pad_idle 8 = (pad_idle, 1, [(0, State_default)], True, 1)"
  using ReadStates_empty_ring [of pad_idle 4 8]
  by (simp add: pad_idle_def GetLastState_def)

text \<open>
  Claim C5. A call of \<open>ReadStates\<close> on a controller that is not connected returns 0,
  stores nothing through \<open>states\<close> and leaves the whole object, with every
  \<open>obtained\<close> flag, as it was, for every history and every capacity argument.
\<close>

theorem ReadStates_disconnected:
  assumes "\<not> m_connected c"
  shows "ReadStates N c states_num = (c, 0, [], False, m_connected_count c)"
  using assms by (simp add: ReadStates_def)

theorem ReadStates_disconnected_witness:
  "\<not> m_connected (pad_wrapped\<lparr>m_connected := False\<rparr>)
     \<and> ReadStates 4 (pad_wrapped\<lparr>m_connected := False\<rparr>) 8
         = (pad_wrapped\<lparr>m_connected := False\<rparr>, 0, [], False, 1)"
  using ReadStates_disconnected [of "pad_wrapped\<lparr>m_connected := False\<rparr>" 4 8]
  by (simp add: pad_wrapped_def)

text \<open>
  Claim C6. \<open>GetLastState\<close> called right after \<open>AddState\<close> of a state \<open>s\<close>
  returns \<open>s\<close>. It is a function of the object alone, so it changes nothing, and the
  slot it reads when the ring is not empty is inside \<open>m_states\<close>. On an object the
  constructor has just set up it returns the default state.
\<close>

theorem GetLastState_latest:
  assumes "ctrl_inv N c"
  shows "GetLastState N (AddState N c s) = s
       \<and> (m_states_num c \<noteq> 0 \<longrightarrow>
            (m_first_state c + m_states_num c - 1) mod N < length (m_states c))
       \<and> GetLastState N (GameController_ctor c0) = State_default"
  using assms
  by (simp add: GetLastState_AddState) (simp add: ctrl_inv_def GetLastState_def GameController_ctor_def)

theorem GetLastState_latest_witness:
  "ctrl_inv 4 pad_wrapped
     \<and> GetLastState 4 (AddState 4 pad_wrapped (sample 7)) = sample 7
     \<and> GetLastState 4 pad_wrapped = sample 6
     \<and> GetLastState 4 (GameController_ctor pad_wrapped) = State_default"
  using GetLastState_latest [of 4 pad_wrapped "sample 7" pad_wrapped]
  by (simp add: ctrl_inv_def pad_wrapped_def GetLastState_def)

text \<open>
  Claim C7. \<open>ReadState\<close> stores \<open>m_connected\<close>, \<open>m_connected_count\<close> and the
  latest state through its out parameters and returns the object unchanged: every slot,
  every \<open>obtained\<close> flag, the head index, the count, \<open>m_last_state\<close> and the
  connection fields are what they were.
\<close>

theorem ReadState_frame:
  "ReadState N c = (c, GetLastState N c, m_connected c, m_connected_count c)"
  by (simp add: ReadState_def)

text \<open>
  Claim C8. Let the clock be monotonic: the values read by the handler calls of a
  sequence are non-decreasing, and none is below the time stamp of a state already live
  (those were read earlier). Then after the \<open>CheckButton\<close> and \<open>Axis\<close> calls of the
  sequence the time stamps of the live states are non-decreasing from the oldest to the
  newest, provided they were so before; on an empty ring they are.
\<close>

theorem handle_events_timestamps_sorted:
  assumes "ctrl_inv N c"
    and "sorted (map time (live_states N c))"
    and "sorted (map fst evs)"
    and "\<forall>s \<in> set (live_states N c). \<forall>t \<in> set (map fst evs). time s \<le> t"
  shows "sorted (map time (live_states N (handle_events N l2 r2 c evs)))"
  using assms
proof (induction evs arbitrary: c)
  case Nil
  then show ?case by (simp add: handle_events_def)
next
  case (Cons ev evs)
  obtain t e where ev: "ev = (t, e)" by (cases ev)
  let ?c1 = "handle_event N l2 r2 c ev"
  let ?old = "if m_states_num c = N then tl (live_states N c) else live_states N c"
  obtain s where s: "time s = t" "live_states N ?c1 = ?old @ [s]"
    using live_states_handle_event [OF Cons.prems(1), of t l2 r2 e] ev by auto
  have sub: "set ?old \<subseteq> set (live_states N c)"
    by (cases "live_states N c") auto
  have old_sorted: "sorted (map time ?old)"
    using Cons.prems(2) by (cases "live_states N c") auto
  have "\<forall>x \<in> set ?old. time x \<le> t"
    using Cons.prems(4) sub ev by auto
  then have 2: "sorted (map time (live_states N ?c1))"
    using old_sorted s by (simp add: sorted_append)
  have 3: "sorted (map fst evs)" using Cons.prems(3) by simp
  have 4: "\<forall>x \<in> set (live_states N ?c1). \<forall>t' \<in> set (map fst evs). time x \<le> t'"
  proof (intro ballI)
    fix x t' assume x: "x \<in> set (live_states N ?c1)" and t': "t' \<in> set (map fst evs)"
    from x s consider "x \<in> set ?old" | "x = s" by auto
    then show "time x \<le> t'"
    proof cases
      case 1
      with sub have "x \<in> set (live_states N c)" by blast
      with Cons.prems(4) t' show ?thesis by auto
    next
      case 2
      with Cons.prems(3) t' s ev show ?thesis by auto
    qed
  qed
  have "sorted (map time (live_states N (handle_events N l2 r2 ?c1 evs)))"
    using ctrl_inv_handle_event [OF Cons.prems(1)] 2 3 4 by (rule Cons.IH)
  then show ?case by (simp add: handle_events_def)
qed

theorem handle_events_timestamps_sorted_witness:
  "ctrl_inv 4 pad_wrapped
     \<and> sorted (map time (live_states 4 pad_wrapped))
     \<and> sorted (map fst [(6::u64, ButtonEvent 0 1 True), (9, AxisEvent 0 TriggerLeft 40), (9, AxisEvent 0 LeftStickX 100)])
     \<and> map time (live_states 4 pad_wrapped) = [3, 4, 5, 6]
     \<and> map fst [(6::u64, ButtonEvent 0 1 True), (9, AxisEvent 0 TriggerLeft 40), (9, AxisEvent 0 LeftStickX 100)] = [6, 9, 9]
     \<and> sorted (map time (live_states 4 (handle_events 4 256 512 pad_wrapped [(6::u64, ButtonEvent 0 1 True), (9, AxisEvent 0 TriggerLeft 40), (9, AxisEvent 0 LeftStickX 100)])))
     \<and> map time (live_states 4 (handle_events 4 256 512 pad_wrapped [(6::u64, ButtonEvent 0 1 True), (9, AxisEvent 0 TriggerLeft 40), (9, AxisEvent 0 LeftStickX 100)])) = [6, 6, 9, 9]"
proof -
  have h1: "ctrl_inv 4 pad_wrapped"
    by (simp add: ctrl_inv_def pad_wrapped_def)
  have h2: "sorted (map time (live_states 4 pad_wrapped))"
    by (simp add: live_states_def live_slots_def pad_wrapped_def upt_rec sample_def State_default_def)
  have h3: "sorted (map fst [(6::u64, ButtonEvent 0 1 True), (9, AxisEvent 0 TriggerLeft 40), (9, AxisEvent 0 LeftStickX 100)])"
    by simp
  have h4: "\<forall>s \<in> set (live_states 4 pad_wrapped).
           \<forall>t \<in> set (map fst [(6::u64, ButtonEvent 0 1 True), (9, AxisEvent 0 TriggerLeft 40), (9, AxisEvent 0 LeftStickX 100)]). time s \<le> t"
    by (simp add: live_states_def live_slots_def pad_wrapped_def upt_rec sample_def State_default_def)
  have v1: "map time (live_states 4 pad_wrapped) = [3, 4, 5, 6]"
    by (simp add: live_states_def live_slots_def pad_wrapped_def upt_rec sample_def State_default_def)
  have v2: "map fst [(6::u64, ButtonEvent 0 1 True), (9, AxisEvent 0 TriggerLeft 40), (9, AxisEvent 0 LeftStickX 100)] = [6, 9, 9]"
    by simp
  have ev: "map time (live_states 4 (handle_events 4 256 512 pad_wrapped [(6::u64, ButtonEvent 0 1 True), (9, AxisEvent 0 TriggerLeft 40), (9, AxisEvent 0 LeftStickX 100)])) = [6, 6, 9, 9]"
    by (simp add: handle_events_def CheckButton_def Axis_def AddState_def GetLastState_def Let_def
        live_states_def live_slots_def pad_wrapped_def upt_rec sample_def State_default_def)
  show ?thesis
    by (intro conjI h1 h2 h3 v1 v2 ev handle_events_timestamps_sorted [OF h1 h2 h3 h4])
qed

text \<open>
  Claim C9. While the device pointer is null, \<open>SetLightBarRGB\<close> does nothing and
  \<open>SetVibration\<close> returns \<open>true\<close>, for all colour and motor values; neither reaches
  the device, and neither changes the controller object.
\<close>

theorem device_calls_null_handle:
  assumes "m_sdl_gamepad c = None"
  shows "SetLightBarRGB SDL_SetGamepadLED c w r g b = (c, w)
       \<and> SetVibration SDL_RumbleGamepad scale c w smallMotor largeMotor = (True, c, w)"
  using assms by (simp add: SetLightBarRGB_def SetVibration_def)

theorem device_calls_null_handle_witness:
  "m_sdl_gamepad pad_wrapped = None
     \<and> SetLightBarRGB (\<lambda>pad r g b w. Suc w) pad_wrapped (0::nat) 0 0 255 = (pad_wrapped, 0)
     \<and> SetVibration (\<lambda>pad lo hi ms w. (- 1, Suc w)) (\<lambda>x. 257 * ucast x) pad_wrapped (0::nat) 255 255
         = (True, pad_wrapped, 0)"
  using device_calls_null_handle [of pad_wrapped "\<lambda>pad r g b w. Suc w" 0 0 0 255
                        "\<lambda>pad lo hi ms w. (- 1, Suc w)" "\<lambda>x. 257 * ucast x" 255 255]
  by (simp add: pad_wrapped_def)

text \<open>
  Claim C10. \<open>ReadStates\<close> keeps its result within the capacity only on the loop
  path. On a connected controller with an empty ring it stores \<open>m_last_state\<close> at
  \<open>states[0]\<close> and returns 1 without looking at \<open>states_num\<close>: for
  \<open>states_num \<le> 0\<close> the result exceeds the capacity and index 0 is outside
  \<open>[0, states_num)\<close>. On a ring that is not empty, for \<open>states_num \<ge> 0\<close>, the
  result is at most \<open>states_num\<close> and every store is inside \<open>[0, states_num)\<close>.
\<close>

theorem ReadStates_capacity:
  "(m_connected c \<and> m_states_num c = 0 \<longrightarrow>
      (case ReadStates N c states_num of
         (c', ret_num, stores, isConnected, connectedCount) \<Rightarrow>
           ret_num = 1 \<and> stores = [(0, m_last_state c)]
         \<and> (states_num \<le> 0 \<longrightarrow>
               states_num < ret_num \<and> (\<exists>(k, s) \<in> set stores. \<not> (0 \<le> k \<and> k < states_num)))))
   \<and> (ctrl_inv N c \<and> m_connected c \<and> m_states_num c \<noteq> 0 \<and> 0 \<le> states_num \<longrightarrow>
      (case ReadStates N c states_num of
         (c', ret_num, stores, isConnected, connectedCount) \<Rightarrow>
           ret_num \<le> states_num \<and> (\<forall>(k, s) \<in> set stores. 0 \<le> k \<and> k < states_num)))"
proof (intro conjI impI)
  assume "m_connected c \<and> m_states_num c = 0"
  then show "case ReadStates N c states_num of
         (c', ret_num, stores, isConnected, connectedCount) \<Rightarrow>
           ret_num = 1 \<and> stores = [(0, m_last_state c)]
         \<and> (states_num \<le> 0 \<longrightarrow>
               states_num < ret_num \<and> (\<exists>(k, s) \<in> set stores. \<not> (0 \<le> k \<and> k < states_num)))"
    by (simp add: ReadStates_def)
next
  assume h: "ctrl_inv N c \<and> m_connected c \<and> m_states_num c \<noteq> 0 \<and> 0 \<le> states_num"
  define todo where "todo = take (nat states_num) (unread_slots N c)"
  have rs: "ReadStates N c states_num =
      (c\<lparr>m_private := mark_obtained todo (m_private c)\<rparr>, int (length todo),
       zip (map int [0..<length todo]) (map (\<lambda>j. m_states c ! j) todo), True, m_connected_count c)"
    unfolding todo_def using h by (intro ReadStates_nonempty) (simp_all add: ctrl_inv_def)
  have "length todo \<le> nat states_num" by (simp add: todo_def)
  with h have len: "int (length todo) \<le> states_num" by linarith
  have "0 \<le> k \<and> k < states_num"
    if "(k, s) \<in> set (zip (map int [0..<length todo]) (map (\<lambda>j. m_states c ! j) todo))" for k s
  proof -
    from that have "k \<in> set (map int [0..<length todo])" by (rule set_zip_leftD)
    then obtain i where "k = int i" "i < length todo" by auto
    with len show ?thesis by simp
  qed
  then show "case ReadStates N c states_num of
         (c', ret_num, stores, isConnected, connectedCount) \<Rightarrow>
           ret_num \<le> states_num \<and> (\<forall>(k, s) \<in> set stores. 0 \<le> k \<and> k < states_num)"
    unfolding rs prod.case using len by blast
qed

theorem ReadStates_capacity_witness:
  "m_connected pad_idle \<and> m_states_num pad_idle = 0
     \<and> ctrl_inv 4 pad_wrapped \<and> m_connected pad_wrapped \<and> m_states_num pad_wrapped \<noteq> 0
     \<and> (0::int) \<le> 3
     \<and> (case ReadStates 4 pad_idle 0 of
         (c', ret_num, stores, isConnected, connectedCount) \<Rightarrow>
           ret_num = 1 \<and> stores = [(0, m_last_state pad_idle)]
         \<and> ((0::int) \<le> 0 \<longrightarrow>
               0 < ret_num \<and> (\<exists>(k, s) \<in> set stores. \<not> (0 \<le> k \<and> k < 0))))
     \<and> (case ReadStates 4 pad_wrapped 3 of
         (c', ret_num, stores, isConnected, connectedCount) \<Rightarrow>
           ret_num \<le> 3 \<and> (\<forall>(k, s) \<in> set stores. 0 \<le> k \<and> k < 3))
     \<and> ReadStates 4 pad_idle 0 = (pad_idle, 1, [(0, State_default)], True, 1)
     \<and> fst (snd (ReadStates 4 pad_wrapped 3)) = 3"
proof -
  have e: "m_connected pad_idle" "m_states_num pad_idle = 0"
    by (simp_all add: pad_idle_def)
  have n: "ctrl_inv 4 pad_wrapped" "m_connected pad_wrapped" "m_states_num pad_wrapped \<noteq> 0"
    "(0::int) \<le> 3"
    by (simp_all add: ctrl_inv_def pad_wrapped_def)
  have n': "ctrl_inv 4 pad_wrapped \<and> m_connected pad_wrapped \<and> m_states_num pad_wrapped \<noteq> 0
              \<and> (0::int) \<le> 3"
    using n by simp
  have ev: "ReadStates 4 pad_idle 0 = (pad_idle, 1, [(0, State_default)], True, 1)"
    by (simp add: ReadStates_def pad_idle_def)
  have ev': "fst (snd (ReadStates 4 pad_wrapped 3)) = 3"
    by (simp add: ReadStates_def ReadStates_loop.simps pad_wrapped_def Let_def)
  note empty = ReadStates_capacity [where c = pad_idle and N = 4 and states_num = 0,
      THEN conjunct1, THEN mp, OF conjI [OF e]]
  note filled = ReadStates_capacity [where c = pad_wrapped and N = 4 and states_num = 3,
      THEN conjunct2, THEN mp, OF n']
  show ?thesis
    by (intro conjI e n ev ev' empty filled)
qed

end
